theory Spec2Isabelle
  imports Complex_Main "HOL-Library.AList" "HOL-Library.Log_Nat"
begin

section \<open>Strings as the source uses them\<close>

text \<open>
  Strings are \<open>char list\<close>. The source's \<open>String.prototype.toLowerCase\<close>,
  \<open>includes\<close>, \<open>indexOf\<close>, \<open>lastIndexOf\<close>, \<open>slice\<close> and \<open>trim\<close> are
  modelled on ASCII text: \<open>toLowerCase\<close> folds \<open>A..Z\<close> and leaves every other
  character alone.
\<close>

definition toLowerChar :: "char \<Rightarrow> char" where
  "toLowerChar c =
     (case map_of (zip ''ABCDEFGHIJKLMNOPQRSTUVWXYZ'' ''abcdefghijklmnopqrstuvwxyz'') c of
        Some l \<Rightarrow> l
      | None \<Rightarrow> c)"

definition toLowerCase :: "string \<Rightarrow> string" where
  "toLowerCase s = map toLowerChar s"

fun startsWith :: "string \<Rightarrow> string \<Rightarrow> bool" where
  "startsWith xs [] = True"
| "startsWith [] (y # ys) = False"
| "startsWith (x # xs) (y # ys) = (x = y \<and> startsWith xs ys)"

text \<open>\<open>includes_str s t\<close> is the source's \<open>s.includes(t)\<close>: \<open>t\<close> occurs in \<open>s\<close> as a
  contiguous substring.\<close>

fun includes_str :: "string \<Rightarrow> string \<Rightarrow> bool" where
  "includes_str [] t = (t = [])"
| "includes_str (x # xs) t = (startsWith (x # xs) t \<or> includes_str xs t)"

section \<open>bootstrap.ts: checkShouldRespond\<close>

text \<open>
  The fields of \<open>Memory\<close> and of the runtime that \<open>checkShouldRespond\<close> and the
  reflection evaluator read. \<open>userId\<close> is the originating entity of the message.
\<close>

record memory =
  mem_id :: string
  userId :: string
  roomId :: string
  content_text :: string

record runtime =
  agentId :: string
  characterName :: string
  conversationLength :: int

text \<open>The value returned by \<open>getParticipantUserState\<close>: \<open>"MUTED"\<close>, \<open>"FOLLOWED"\<close>
  or no state.\<close>

datatype userState = MUTED | FOLLOWED | NoState

text \<open>
  The body of \<open>checkShouldRespond\<close>. The participant state and the answer of the small
  model are the results of the two awaited collaborators; the answer is only looked at
  on the last path.
\<close>

definition checkShouldRespond :: "runtime \<Rightarrow> memory \<Rightarrow> userState \<Rightarrow> string \<Rightarrow> bool" where
  "checkShouldRespond rt message agentUserState response =
     (if userId message = agentId rt then False
      else if agentUserState = MUTED
              \<and> \<not> includes_str (toLowerCase (content_text message)) (toLowerCase (characterName rt))
        then False
      else if agentUserState = FOLLOWED then True
      else if includes_str (toLowerCase (content_text message)) (toLowerCase (characterName rt)) then True
      else if includes_str response ''RESPOND'' then True
      else if includes_str response ''IGNORE'' then False
      else if includes_str response ''STOP'' then False
      else False)"

section \<open>reflection.ts: validate\<close>

text \<open>\<open>Array.prototype.findIndex\<close>: the first index whose element satisfies the
  predicate; the source's \<open>-1\<close> is \<open>None\<close>.\<close>

fun findIndex :: "('a \<Rightarrow> bool) \<Rightarrow> 'a list \<Rightarrow> nat option" where
  "findIndex P [] = None"
| "findIndex P (x # xs) =
     (if P x then Some 0 else (case findIndex P xs of None \<Rightarrow> None | Some i \<Rightarrow> Some (Suc i)))"

text \<open>\<open>Math.ceil(n / 4)\<close> on an integer \<open>n\<close>, in integer arithmetic.\<close>

definition reflectionInterval :: "int \<Rightarrow> int" where
  "reflectionInterval n = - ((- n) div 4)"

text \<open>
  \<open>messagesSinceCheckpoint\<close> is the message list after the \<open>splice\<close> of \<open>validate\<close>.
  The cached id is absent (\<open>None\<close>) or a string; the source's test
  \<open>if (lastMessageId)\<close> also skips the empty string.
\<close>

definition messagesSinceCheckpoint :: "string option \<Rightarrow> memory list \<Rightarrow> memory list" where
  "messagesSinceCheckpoint lastMessageId messages =
     (case lastMessageId of
        None \<Rightarrow> messages
      | Some l \<Rightarrow>
          if l = [] then messages
          else (case findIndex (\<lambda>msg. mem_id msg = l) messages of
                  None \<Rightarrow> messages
                | Some lastMessageIndex \<Rightarrow> drop (lastMessageIndex + 1) messages))"

definition validate :: "runtime \<Rightarrow> string option \<Rightarrow> memory list \<Rightarrow> bool" where
  "validate rt lastMessageId messages =
     (int (length (messagesSinceCheckpoint lastMessageId messages))
        > reflectionInterval (conversationLength rt))"

section \<open>reflection.ts: resolveEntity\<close>

record entity =
  ent_id :: string
  names :: "string list"

datatype fault =
    CouldNotResolve string
  | EmptyPrompt
  | ModelRejected

definition isHexDigit :: "char \<Rightarrow> bool" where
  "isHexDigit c = (c \<in> set ''0123456789abcdefABCDEF'')"

text \<open>The test of the regular expression
  \<open>/^[0-9a-f]{8}-[0-9a-f]{4}-[0-9a-f]{4}-[0-9a-f]{4}-[0-9a-f]{12}$/i\<close>.\<close>

definition isUuid :: "string \<Rightarrow> bool" where
  "isUuid s =
     (length s = 36
      \<and> list_all isHexDigit (take 8 s) \<and> s ! 8 = CHR ''-''
      \<and> list_all isHexDigit (take 4 (drop 9 s)) \<and> s ! 13 = CHR ''-''
      \<and> list_all isHexDigit (take 4 (drop 14 s)) \<and> s ! 18 = CHR ''-''
      \<and> list_all isHexDigit (take 4 (drop 19 s)) \<and> s ! 23 = CHR ''-''
      \<and> list_all isHexDigit (drop 24 s))"

definition resolveEntity :: "string \<Rightarrow> entity list \<Rightarrow> fault + string" where
  "resolveEntity entityId entities =
     (if isUuid entityId then Inr entityId
      else case List.find (\<lambda>a. ent_id a = entityId) entities of
        Some e \<Rightarrow> Inr (ent_id e)
      | None \<Rightarrow>
     (case List.find (\<lambda>a. includes_str (ent_id a) entityId) entities of
        Some e \<Rightarrow> Inr (ent_id e)
      | None \<Rightarrow>
     (case List.find (\<lambda>a. list_ex (\<lambda>n. includes_str (toLowerCase n) (toLowerCase entityId)) (names a))
              entities of
        Some e \<Rightarrow> Inr (ent_id e)
      | None \<Rightarrow> Inl (CouldNotResolve entityId))))"

section \<open>reflection.ts: generateObject\<close>

text \<open>
  JSON values. \<open>JNull\<close> is the source's \<open>null\<close>, which is also what
  \<open>generateObject\<close> returns when it gives up.
\<close>

datatype json =
    JNull
  | JBool bool
  | JNumber int
  | JString string
  | JArray "json list"
  | JObject "(string \<times> json) list"

text \<open>The \<open>output\<close> parameter: \<open>"object"\<close> (the default), \<open>"array"\<close> or \<open>"enum"\<close>.\<close>

datatype outputKind = Object | Array | Enum

text \<open>An awaited promise settles: it is fulfilled with a value or it rejects.\<close>

datatype 'a settled = Fulfilled 'a | Rejected

definition indexOf :: "string \<Rightarrow> char \<Rightarrow> nat option" where
  "indexOf s c = findIndex (\<lambda>x. x = c) s"

fun lastIndexOf :: "string \<Rightarrow> char \<Rightarrow> nat option" where
  "lastIndexOf [] c = None"
| "lastIndexOf (x # xs) c =
     (case lastIndexOf xs c of
        Some i \<Rightarrow> Some (Suc i)
      | None \<Rightarrow> if x = c then Some 0 else None)"

text \<open>\<open>s.slice(b, e)\<close> for \<open>0 \<le> b\<close> and \<open>0 \<le> e\<close>.\<close>

definition slice :: "string \<Rightarrow> nat \<Rightarrow> nat \<Rightarrow> string" where
  "slice s b e = take (e - b) (drop b s)"

definition isSpace :: "char \<Rightarrow> bool" where
  "isSpace c = (c \<in> {CHR '' '', CHR 0x09, CHR 0x0A, CHR 0x0B, CHR 0x0C, CHR 0x0D})"

definition trim :: "string \<Rightarrow> string" where
  "trim s = rev (dropWhile isSpace (rev (dropWhile isSpace s)))"

text \<open>
  \<open>generateObject\<close>. The built-in \<open>JSON.parse\<close> is the parameter \<open>JSON_parse\<close>
  (\<open>None\<close> where it throws), the settled \<open>runtime.useModel\<close> call is \<open>reply\<close>, and
  \<open>schema\<close> is absent or the \<open>parse\<close> method of the schema (\<open>None\<close> where it
  throws). The \<open>try\<close> block covers the two parses only.
\<close>

definition generateObject ::
  "(string \<Rightarrow> json option) \<Rightarrow> string \<Rightarrow> string settled \<Rightarrow> outputKind \<Rightarrow> string list
     \<Rightarrow> (json \<Rightarrow> json option) option \<Rightarrow> fault + json" where
  "generateObject JSON_parse prompt reply output enumValues schema =
     (if prompt = [] then Inl EmptyPrompt
      else case reply of
        Rejected \<Rightarrow> Inl ModelRejected
      | Fulfilled response \<Rightarrow>
          if output = Enum then
            (let cleanedResponse = trim response in
             if cleanedResponse \<in> set enumValues then Inr (JString cleanedResponse)
             else case List.find
                         (\<lambda>value. includes_str (toLowerCase cleanedResponse) (toLowerCase value))
                         enumValues of
                    Some matchedValue \<Rightarrow>
                      if matchedValue \<noteq> [] then Inr (JString matchedValue) else Inr JNull
                  | None \<Rightarrow> Inr JNull)
          else
            (let firstChar = (if output = Array then CHR ''['' else CHR ''{'');
                 lastChar = (if output = Array then CHR '']'' else CHR ''}'');
                 firstBracket = indexOf response firstChar;
                 lastBracket = lastIndexOf response lastChar;
                 jsonString =
                   (case firstBracket of
                      None \<Rightarrow> response
                    | Some f \<Rightarrow>
                        (case lastBracket of
                           None \<Rightarrow> response
                         | Some l \<Rightarrow> if f < l then slice response f (l + 1) else response))
             in if length jsonString = 0 then Inr JNull
                else case JSON_parse jsonString of
                       None \<Rightarrow> Inr JNull
                     | Some json \<Rightarrow>
                         (case schema of
                            None \<Rightarrow> Inr json
                          | Some parse \<Rightarrow>
                              (case parse json of None \<Rightarrow> Inr JNull | Some v \<Rightarrow> Inr v))))"

text \<open>
  The built-in \<open>JSON.parse\<close> on the three literal names of JSON, the empty object and
  the empty array. Every other text is outside this fragment and is not parsed by it; the
  general statements below range over any parser.
\<close>

definition JSON_parse_literal :: "string \<Rightarrow> json option" where
  "JSON_parse_literal s =
     (if s = ''true'' then Some (JBool True)
      else if s = ''false'' then Some (JBool False)
      else if s = ''null'' then Some JNull
      else if s = ''{}'' then Some (JObject [])
      else if s = ''[]'' then Some (JArray [])
      else None)"

text \<open>
  The words of the specification. The brackets of the requested shape; the reply holds a
  matching bracket pair, an opening bracket somewhere before a closing one; and what a
  text yields: \<open>null\<close> when it is empty, when it does not parse, or when the supplied
  schema rejects the parsed value, and the parsed (validated) value otherwise.
\<close>

definition openBracket :: "outputKind \<Rightarrow> char" where
  "openBracket output = (if output = Array then CHR ''['' else CHR ''{'')"

definition closeBracket :: "outputKind \<Rightarrow> char" where
  "closeBracket output = (if output = Array then CHR '']'' else CHR ''}'')"

definition extractionResult ::
  "(string \<Rightarrow> json option) \<Rightarrow> (json \<Rightarrow> json option) option \<Rightarrow> string \<Rightarrow> json" where
  "extractionResult JSON_parse schema jsonText =
     (if jsonText = [] then JNull
      else case JSON_parse jsonText of
        None \<Rightarrow> JNull
      | Some json \<Rightarrow>
          (case schema of
             None \<Rightarrow> json
           | Some parse \<Rightarrow> (case parse json of None \<Rightarrow> JNull | Some v \<Rightarrow> v)))"

definition hasBracketPair :: "outputKind \<Rightarrow> string \<Rightarrow> bool" where
  "hasBracketPair output response =
     (\<exists>i j. i < j \<and> j < length response
        \<and> response ! i = openBracket output \<and> response ! j = closeBracket output)"

section \<open>Numbers of the language\<close>

text \<open>
  The interaction counter is a \<open>number\<close> of the language, a binary64 floating point
  value: a finite value, an infinity, or \<open>NaN\<close>. A finite value is given by the
  rational it stands for; the values that occur are the ones the format represents, as
  every result of an operation is rounded, and the two zeros are not told apart.
  \<open>roundDouble\<close> rounds a rational to the nearest value of the format, ties to the
  even significand, with 53 bits of significand, the least exponent \<open>-1074\<close> and
  overflow to infinity from \<open>2 ^ 1024\<close>; \<open>jsPlus\<close> is the operator \<open>+\<close> on numbers
  and \<open>orZero x\<close> is \<open>x || 0\<close>, where a missing value, \<open>0\<close> and \<open>NaN\<close> are falsy.
\<close>

datatype jsnumber = Finite rat | PosInfinity | NegInfinity | NaN

definition pow2 :: "int \<Rightarrow> rat" where
  "pow2 e = (if 0 \<le> e then 2 ^ nat e else 1 / 2 ^ nat (- e))"

text \<open>For \<open>a > 0\<close>, the exponent \<open>e\<close> with \<open>2 ^ e \<le> a < 2 ^ (e + 1)\<close>.\<close>

definition binaryExponent :: "rat \<Rightarrow> int" where
  "binaryExponent a =
     (if 1 \<le> a then bitlen \<lfloor>a\<rfloor> - 1 else - bitlen (\<lceil>1 / a\<rceil> - 1))"

definition roundHalfEven :: "rat \<Rightarrow> int" where
  "roundHalfEven x =
     (let f = \<lfloor>x\<rfloor>; d = x - of_int f
      in if d < 1 / 2 then f else if 1 / 2 < d then f + 1 else if even f then f else f + 1)"

definition roundDouble :: "rat \<Rightarrow> jsnumber" where
  "roundDouble x =
     (if x = 0 then Finite 0
      else let a = \<bar>x\<bar>;
               k = max (binaryExponent a - 52) (- 1074);
               r = of_int (roundHalfEven (a / pow2 k)) * pow2 k
           in if pow2 1024 \<le> r then (if x < 0 then NegInfinity else PosInfinity)
              else Finite (if x < 0 then - r else r))"

fun jsPlus :: "jsnumber \<Rightarrow> jsnumber \<Rightarrow> jsnumber" where
  "jsPlus (Finite x) (Finite y) = roundDouble (x + y)"
| "jsPlus NaN y = NaN"
| "jsPlus x NaN = NaN"
| "jsPlus PosInfinity NegInfinity = NaN"
| "jsPlus NegInfinity PosInfinity = NaN"
| "jsPlus PosInfinity y = PosInfinity"
| "jsPlus NegInfinity y = NegInfinity"
| "jsPlus x PosInfinity = PosInfinity"
| "jsPlus x NegInfinity = NegInfinity"

fun orZero :: "jsnumber option \<Rightarrow> jsnumber" where
  "orZero None = Finite 0"
| "orZero (Some NaN) = Finite 0"
| "orZero (Some n) = n"

section \<open>reflection.ts: the relationship loop of handler\<close>

text \<open>
  A relationship as the handler sees it, both as extracted by the model (validated by
  \<open>relationshipSchema\<close>) and as loaded from the store. \<open>metadata\<close> is
  \<open>metadata?.interactions\<close>: \<open>None\<close> when the metadata or its counter is missing, and a
  number of the language otherwise.
\<close>

record relationship =
  sourceEntityId :: string
  targetEntityId :: string
  tags :: "string list"
  metadata :: "jsnumber option"

datatype dbCall =
    UpdateRelationship relationship
  | CreateRelationship relationship

text \<open>\<open>Array.from(new Set(xs))\<close>: the elements of \<open>xs\<close> in order of first occurrence.\<close>

primrec addAll :: "'a list \<Rightarrow> 'a list \<Rightarrow> 'a list" where
  "addAll acc [] = acc"
| "addAll acc (x # xs) = addAll (if x \<in> set acc then acc else acc @ [x]) xs"

definition arrayFromSet :: "'a list \<Rightarrow> 'a list" where
  "arrayFromSet xs = addAll [] xs"

text \<open>
  The \<open>for\<close> loop over \<open>reflection.relationships\<close>, as the list of store calls it
  awaits, in order. \<open>existingRelationships\<close> is the list loaded once before the loop; a
  failed resolution is the \<open>continue\<close> of the \<open>catch\<close> block. The new counter is
  \<open>(interactions || 0) + 1\<close> in the arithmetic of the language, and in \<open>tags || []\<close> a
  stored edge without tags has the empty tag list.
\<close>

fun relationshipCalls :: "entity list \<Rightarrow> relationship list \<Rightarrow> relationship list \<Rightarrow> dbCall list" where
  "relationshipCalls entities existingRelationships [] = []"
| "relationshipCalls entities existingRelationships (relationship # rest) =
     (case resolveEntity (sourceEntityId relationship) entities of
        Inl error \<Rightarrow> relationshipCalls entities existingRelationships rest
      | Inr sourceId \<Rightarrow>
     (case resolveEntity (targetEntityId relationship) entities of
        Inl error \<Rightarrow> relationshipCalls entities existingRelationships rest
      | Inr targetId \<Rightarrow>
     (case List.find (\<lambda>r. sourceEntityId r = sourceId \<and> targetEntityId r = targetId)
              existingRelationships of
        Some existingRelationship \<Rightarrow>
          UpdateRelationship
            (existingRelationship
               \<lparr>tags := arrayFromSet (tags existingRelationship @ tags relationship),
                metadata := Some (jsPlus (orZero (metadata existingRelationship)) (Finite 1))\<rparr>)
      | None \<Rightarrow>
          CreateRelationship
            \<lparr>sourceEntityId = sourceId, targetEntityId = targetId, tags = tags relationship,
             metadata = Some (case metadata relationship of None \<Rightarrow> Finite 1 | Some n \<Rightarrow> n)\<rparr>)
       # relationshipCalls entities existingRelationships rest))"

text \<open>
  Modelled from the spec: the relationship store behind \<open>getDatabaseAdapter()\<close>, which
  is not part of the sources. Section 6 gives \<open>getRelationships(entityId)\<close>,
  \<open>createRelationship\<close> and \<open>updateRelationship\<close>; section 3 says an edge is created
  on first observation and updated on later observation of the same ordered pair. The
  store is the list of its edges; creating appends an edge, updating rewrites the stored
  edge of that ordered pair, and loading for an entity gives the edges it takes part in.
\<close>

definition getRelationships :: "string \<Rightarrow> relationship list \<Rightarrow> relationship list" where
  "getRelationships entityId store =
     filter (\<lambda>r. sourceEntityId r = entityId \<or> targetEntityId r = entityId) store"

fun applyCall :: "relationship list \<Rightarrow> dbCall \<Rightarrow> relationship list" where
  "applyCall store (CreateRelationship r) = store @ [r]"
| "applyCall store (UpdateRelationship r) =
     map (\<lambda>x. if sourceEntityId x = sourceEntityId r \<and> targetEntityId x = targetEntityId r
              then r else x) store"

text \<open>One reflection pass over the store: the relationships of the triggering entity are
  loaded, the loop runs, and its calls reach the store in order.\<close>

definition reflectionPass ::
  "entity list \<Rightarrow> string \<Rightarrow> relationship list \<Rightarrow> relationship list \<Rightarrow> relationship list" where
  "reflectionPass entities senderId extracted store =
     foldl applyCall store (relationshipCalls entities (getRelationships senderId store) extracted)"

section \<open>bootstrap.ts: messageReceivedHandler\<close>

text \<open>
  \<open>messageReceivedHandler\<close> is an \<open>async\<close> function: it runs from one \<open>await\<close> to
  the next without interruption, and between two of its segments any segment of another
  invocation may run. An invocation is modelled by its frame (its program point and its
  local constants), the module-level map \<open>latestResponseIds\<close> by a map from agent ids to
  the addresses of the inner \<open>Map\<close> objects, and the inner maps by a heap, since an
  invocation keeps the reference \<open>agentResponses\<close> it read in its first segment. An inner
  map is the list of its entries; \<open>v4()\<close> is a counter of fresh tokens.
\<close>

type_synonym token = nat
type_synonym addr = nat

datatype pc =
    NotStarted
  | Persisting      \<comment> \<open>awaiting \<open>Promise.all\<close> of \<open>addEmbeddingToMemory\<close> and \<open>createMemory\<close>\<close>
  | Deciding        \<comment> \<open>awaiting \<open>checkShouldRespond\<close>\<close>
  | Composing       \<comment> \<open>awaiting the first \<open>composeState\<close>\<close>
  | Generating      \<comment> \<open>awaiting \<open>useModel(TEXT_LARGE)\<close>\<close>
  | Recomposing     \<comment> \<open>awaiting the second \<open>composeState\<close>\<close>
  | Dispatching     \<comment> \<open>awaiting \<open>processActions\<close>\<close>
  | Evaluating      \<comment> \<open>awaiting \<open>evaluate\<close>\<close>
  | Done            \<comment> \<open>returned after \<open>evaluate\<close>\<close>
  | Discarded       \<comment> \<open>returned at the stale-token test\<close>
  | Failed          \<comment> \<open>the promise of the invocation rejected\<close>

record frame =
  pc :: pc
  frame_agentId :: string
  frame_roomId :: string
  responseId :: token
  agentResponses :: addr
  shouldRespond :: bool

text \<open>The collaborator calls an invocation issues, tagged with the invocation.\<close>

datatype call =
    AddEmbeddingToMemory nat
  | CreateMemory nat
  | CheckShouldRespond nat
  | ComposeState nat
  | UseModelLarge nat
  | ProcessActions nat
  | Evaluate nat bool

record world =
  latestResponseIds :: "string \<rightharpoonup> addr"
  heap :: "addr \<Rightarrow> (string \<times> token) list"
  nextAddr :: addr
  nextToken :: token
  frames :: "nat \<Rightarrow> frame"
  calls :: "call list"

definition world0 :: world where
  "world0 =
     \<lparr>latestResponseIds = Map.empty, heap = (\<lambda>a. []), nextAddr = 0, nextToken = 0,
      frames = (\<lambda>h. \<lparr>pc = NotStarted, frame_agentId = [], frame_roomId = [], responseId = 0,
                       agentResponses = 0, shouldRespond = False\<rparr>),
      calls = []\<rparr>"

text \<open>
  What can happen: the handler is invoked for a message of a room on behalf of an agent,
  or a promise an invocation awaits settles. The reply of the large model is fulfilled
  with \<open>True\<close> when \<open>parseJSONObjectFromText\<close> gives a content object and with \<open>False\<close>
  when it gives \<open>null\<close>.
\<close>

datatype event =
    Invoke nat string string
  | Persisted nat "unit settled"
  | ShouldRespondSettled nat "bool settled"
  | StateComposed nat "unit settled"
  | ModelReplied nat "bool settled"
  | ActionsProcessed nat "unit settled"
  | Evaluated nat "unit settled"

definition setPc :: "nat \<Rightarrow> pc \<Rightarrow> world \<Rightarrow> world" where
  "setPc h p w = w\<lparr>frames := (frames w)(h := (frames w h)\<lparr>pc := p\<rparr>)\<rparr>"

definition issue :: "call list \<Rightarrow> world \<Rightarrow> world" where
  "issue cs w = w\<lparr>calls := calls w @ cs\<rparr>"

text \<open>Lines 193 to 207: mint the response id, get or create the map of the agent, set
  the id for the room, start persisting the message.\<close>

definition invoke :: "nat \<Rightarrow> string \<Rightarrow> string \<Rightarrow> world \<Rightarrow> world" where
  "invoke h agent room w =
     (let rid = nextToken w;
          w1 = (case latestResponseIds w agent of
                  Some a \<Rightarrow> w
                | None \<Rightarrow> w\<lparr>latestResponseIds := (latestResponseIds w)(agent \<mapsto> nextAddr w),
                            heap := (heap w)(nextAddr w := []),
                            nextAddr := nextAddr w + 1\<rparr>);
          a = the (latestResponseIds w1 agent);
          w2 = w1\<lparr>heap := (heap w1)(a := AList.update room rid (heap w1 a)),
                  nextToken := rid + 1,
                  frames := (frames w1)(h := \<lparr>pc = Persisting, frame_agentId = agent,
                     frame_roomId = room, responseId = rid, agentResponses = a,
                     shouldRespond = False\<rparr>)\<rparr>
      in issue [AddEmbeddingToMemory h, CreateMemory h] w2)"

text \<open>Lines 251 to 257: delete the entry of the room from the map the invocation holds,
  drop the agent from \<open>latestResponseIds\<close> when that map is empty, call
  \<open>processActions\<close>.\<close>

definition cleanUpAndDispatch :: "nat \<Rightarrow> world \<Rightarrow> world" where
  "cleanUpAndDispatch h w =
     (let f = frames w h;
          a = agentResponses f;
          m = AList.delete (frame_roomId f) (heap w a);
          w1 = w\<lparr>heap := (heap w)(a := m)\<rparr>;
          w2 = (if length m = 0
                then w1\<lparr>latestResponseIds := (latestResponseIds w1)(frame_agentId f := None)\<rparr>
                else w1)
      in issue [ProcessActions h] (setPc h Dispatching w2))"

fun step :: "event \<Rightarrow> world \<Rightarrow> world" where
  "step (Invoke h agent room) w =
     (if pc (frames w h) = NotStarted then invoke h agent room w else w)"
| "step (Persisted h r) w =
     (if pc (frames w h) \<noteq> Persisting then w
      else case r of
        Rejected \<Rightarrow> setPc h Failed w
      | Fulfilled u \<Rightarrow> issue [CheckShouldRespond h] (setPc h Deciding w))"
| "step (ShouldRespondSettled h r) w =
     (if pc (frames w h) \<noteq> Deciding then w
      else case r of
        Rejected \<Rightarrow> setPc h Failed w
      | Fulfilled b \<Rightarrow>
          issue [ComposeState h]
            (w\<lparr>frames := (frames w)(h := (frames w h)\<lparr>pc := Composing, shouldRespond := b\<rparr>)\<rparr>))"
| "step (StateComposed h r) w =
     (if pc (frames w h) = Composing then
        (case r of
           Rejected \<Rightarrow> setPc h Failed w
         | Fulfilled u \<Rightarrow>
             if shouldRespond (frames w h) then issue [UseModelLarge h] (setPc h Generating w)
             else issue [Evaluate h (shouldRespond (frames w h))] (setPc h Evaluating w))
      else if pc (frames w h) = Recomposing then
        (case r of
           Rejected \<Rightarrow> setPc h Failed w
         | Fulfilled u \<Rightarrow> cleanUpAndDispatch h w)
      else w)"
| "step (ModelReplied h r) w =
     (if pc (frames w h) \<noteq> Generating then w
      else case r of
        Rejected \<Rightarrow> setPc h Failed w
      | Fulfilled hasContent \<Rightarrow>
          if map_of (heap w (agentResponses (frames w h))) (frame_roomId (frames w h))
               \<noteq> Some (responseId (frames w h))
          then setPc h Discarded w
          else if \<not> hasContent then setPc h Failed w
          else issue [ComposeState h] (setPc h Recomposing w))"
| "step (ActionsProcessed h r) w =
     (if pc (frames w h) \<noteq> Dispatching then w
      else case r of
        Rejected \<Rightarrow> setPc h Failed w
      | Fulfilled u \<Rightarrow> issue [Evaluate h (shouldRespond (frames w h))] (setPc h Evaluating w))"
| "step (Evaluated h r) w =
     (if pc (frames w h) \<noteq> Evaluating then w
      else case r of
        Rejected \<Rightarrow> setPc h Failed w
      | Fulfilled u \<Rightarrow> setPc h Done w)"

text \<open>A schedule is the order in which invocations start and promises settle.\<close>

fun run :: "event list \<Rightarrow> world \<Rightarrow> world" where
  "run [] w = w"
| "run (e # es) w = run es (step e w)"

text \<open>The live token of an agent and room: the entry reachable from
  \<open>latestResponseIds\<close>.\<close>

definition liveToken :: "world \<Rightarrow> string \<Rightarrow> string \<Rightarrow> token option" where
  "liveToken w agent room =
     (case latestResponseIds w agent of
        None \<Rightarrow> None
      | Some a \<Rightarrow> map_of (heap w a) room)"

definition evaluateCalls :: "nat \<Rightarrow> world \<Rightarrow> call list" where
  "evaluateCalls h w = filter (\<lambda>c. c = Evaluate h True \<or> c = Evaluate h False) (calls w)"

fun callOf :: "call \<Rightarrow> nat" where
  "callOf (AddEmbeddingToMemory h) = h"
| "callOf (CreateMemory h) = h"
| "callOf (CheckShouldRespond h) = h"
| "callOf (ComposeState h) = h"
| "callOf (UseModelLarge h) = h"
| "callOf (ProcessActions h) = h"
| "callOf (Evaluate h b) = h"

definition callsOf :: "nat \<Rightarrow> world \<Rightarrow> call list" where
  "callsOf h w = filter (\<lambda>c. callOf c = h) (calls w)"

text \<open>
  For the proofs: the invocation an event belongs to, the program points at which an
  invocation has ended, and two invariants of every schedule. The first ties the calls
  of \<open>evaluate\<close> an invocation has issued to its program point, the second the calls
  issued up to the first \<open>await\<close>.
\<close>

fun eventOf :: "event \<Rightarrow> nat" where
  "eventOf (Invoke h agent room) = h"
| "eventOf (Persisted h r) = h"
| "eventOf (ShouldRespondSettled h r) = h"
| "eventOf (StateComposed h r) = h"
| "eventOf (ModelReplied h r) = h"
| "eventOf (ActionsProcessed h r) = h"
| "eventOf (Evaluated h r) = h"

definition terminal :: "pc \<Rightarrow> bool" where
  "terminal p = (p = Done \<or> p = Discarded \<or> p = Failed)"

definition evalInv :: "nat \<Rightarrow> world \<Rightarrow> bool" where
  "evalInv h w =
     (let f = frames w h in
      (pc f \<in> {NotStarted, Persisting, Deciding, Composing, Generating, Recomposing,
                Dispatching, Discarded} \<longrightarrow> evaluateCalls h w = [])
      \<and> (pc f \<in> {Evaluating, Done} \<longrightarrow> evaluateCalls h w = [Evaluate h (shouldRespond f)])
      \<and> (pc f = Failed \<longrightarrow> length (evaluateCalls h w) \<le> 1)
      \<and> (pc f \<in> {Generating, Recomposing, Dispatching} \<longrightarrow> shouldRespond f))"

definition persistInv :: "nat \<Rightarrow> world \<Rightarrow> bool" where
  "persistInv h w =
     ((pc (frames w h) = NotStarted \<longrightarrow> callsOf h w = [])
      \<and> (pc (frames w h) = Persisting \<longrightarrow> callsOf h w = [AddEmbeddingToMemory h, CreateMemory h]))"

section \<open>The notions of the specification\<close>

text \<open>
  These definitions follow the words of the specification, not the code: a text occurs in
  another as a contiguous substring; a message mentions the agent's name without regard
  to case; the messages that remain after truncating everything at or before the
  checkpoint; the first entity of a roster that satisfies a rule; the rules (b), (c) and
  (d) of the entity resolver.
\<close>

definition mentionsName :: "runtime \<Rightarrow> memory \<Rightarrow> bool" where
  "mentionsName rt message =
     (\<exists>p q. toLowerCase (content_text message) = p @ toLowerCase (characterName rt) @ q)"

definition occursIn :: "string \<Rightarrow> string \<Rightarrow> bool" where
  "occursIn t s = (\<exists>p q. s = p @ t @ q)"

definition remainingAfterCheckpoint :: "string option \<Rightarrow> memory list \<Rightarrow> memory list" where
  "remainingAfterCheckpoint checkpoint messages =
     (case checkpoint of
        None \<Rightarrow> messages
      | Some c \<Rightarrow>
          if c \<in> mem_id ` set messages
          then tl (dropWhile (\<lambda>m. mem_id m \<noteq> c) messages)
          else messages)"

definition firstMatch :: "('a \<Rightarrow> bool) \<Rightarrow> 'a list \<Rightarrow> 'a \<Rightarrow> bool" where
  "firstMatch R xs a = (\<exists>i<length xs. xs ! i = a \<and> R a \<and> (\<forall>j<i. \<not> R (xs ! j)))"

definition ruleExactId :: "string \<Rightarrow> entity \<Rightarrow> bool" where
  "ruleExactId entityId a = (ent_id a = entityId)"

definition rulePartialId :: "string \<Rightarrow> entity \<Rightarrow> bool" where
  "rulePartialId entityId a = occursIn entityId (ent_id a)"

definition ruleName :: "string \<Rightarrow> entity \<Rightarrow> bool" where
  "ruleName entityId a = (\<exists>n\<in>set (names a). occursIn (toLowerCase entityId) (toLowerCase n))"

section \<open>Properties\<close>

subsection \<open>Strings and indices\<close>

lemma startsWith_iff: "startsWith s t \<longleftrightarrow> (\<exists>q. s = t @ q)"
  by (induction s t rule: startsWith.induct) auto

lemma includes_str_iff: "includes_str s t \<longleftrightarrow> (\<exists>p q. s = p @ t @ q)"
proof (induction s)
  case Nil
  then show ?case by auto
next
  case (Cons x xs)
  show ?case
  proof
    assume "includes_str (x # xs) t"
    then consider "startsWith (x # xs) t" | "includes_str xs t" by auto
    then show "\<exists>p q. x # xs = p @ t @ q"
    proof cases
      case 1
      then obtain q where "x # xs = t @ q" by (auto simp: startsWith_iff)
      then have "x # xs = [] @ t @ q" by simp
      then show ?thesis by blast
    next
      case 2
      then obtain p q where "xs = p @ t @ q" using Cons.IH by auto
      then have "x # xs = (x # p) @ t @ q" by simp
      then show ?thesis by blast
    qed
  next
    assume "\<exists>p q. x # xs = p @ t @ q"
    then obtain p q where pq: "x # xs = p @ t @ q" by auto
    show "includes_str (x # xs) t"
    proof (cases p)
      case Nil
      with pq have "startsWith (x # xs) t" by (auto simp: startsWith_iff)
      then show ?thesis by simp
    next
      case (Cons y ys)
      with pq have "xs = ys @ t @ q" by simp
      then have "includes_str xs t" using Cons.IH by blast
      then show ?thesis by simp
    qed
  qed
qed

lemma findIndex_Some_iff:
  "findIndex P xs = Some i \<longleftrightarrow> i < length xs \<and> P (xs ! i) \<and> (\<forall>j<i. \<not> P (xs ! j))"
proof (induction xs arbitrary: i)
  case Nil
  then show ?case by simp
next
  case (Cons x xs)
  show ?case
  proof (cases "P x")
    case True
    then show ?thesis by (cases i) auto
  next
    case False
    show ?thesis
    proof (cases i)
      case 0
      with False show ?thesis by (auto split: option.splits)
    next
      case (Suc k)
      have "(\<forall>j<Suc k. \<not> P ((x # xs) ! j)) \<longleftrightarrow> (\<forall>j<k. \<not> P (xs ! j))"
        using False by (auto simp: less_Suc_eq_0_disj)
      with False Suc Cons.IH[of k] show ?thesis by (auto split: option.splits)
    qed
  qed
qed

lemma findIndex_None_iff: "findIndex P xs = None \<longleftrightarrow> (\<forall>x\<in>set xs. \<not> P x)"
  by (induction xs) (auto split: option.splits)

lemma reflectionInterval_ceiling: "reflectionInterval n = \<lceil>real_of_int n / 4\<rceil>"
  unfolding reflectionInterval_def by linarith

lemma findIndex_drop:
  "findIndex P xs = Some i \<Longrightarrow> drop (i + 1) xs = tl (dropWhile (\<lambda>x. \<not> P x) xs)"
proof (induction xs arbitrary: i)
  case Nil then show ?case by simp
next
  case (Cons x xs)
  then show ?case by (auto split: if_splits option.splits)
qed

subsection \<open>The should-respond decision\<close>

lemma includes_str_occursIn: "includes_str s t = occursIn t s"
  by (simp add: includes_str_iff occursIn_def)

text \<open>
  Claim C7. \<open>checkShouldRespond\<close> takes its early exits in a fixed order, each cutting
  off the later ones: a message written by the agent itself is never answered; otherwise
  a muted room whose message does not mention the agent's name (as a substring, without
  regard to case) is not answered; otherwise a followed room is answered; otherwise a
  message that mentions the name is answered, so that a mention wins over a mute; and
  only otherwise the reply of the model decides: a reply that contains \<open>RESPOND\<close> gives
  true, one without it gives false, whether it contains \<open>IGNORE\<close>, \<open>STOP\<close> or neither.
  In particular the text \<open>hey SarahBot are you there\<close> in a muted room of the agent
  \<open>SarahBot\<close> is answered, whatever the model would say.
\<close>

theorem checkShouldRespond_order:
  "(userId m = agentId rt \<longrightarrow> \<not> checkShouldRespond rt m st reply)
   \<and> (userId m \<noteq> agentId rt \<and> st = MUTED \<and> \<not> mentionsName rt m
        \<longrightarrow> \<not> checkShouldRespond rt m st reply)
   \<and> (userId m \<noteq> agentId rt \<and> st = FOLLOWED \<longrightarrow> checkShouldRespond rt m st reply)
   \<and> (userId m \<noteq> agentId rt \<and> mentionsName rt m \<longrightarrow> checkShouldRespond rt m st reply)
   \<and> (userId m \<noteq> agentId rt \<and> st = NoState \<and> \<not> mentionsName rt m
        \<longrightarrow> (occursIn ''RESPOND'' reply \<longrightarrow> checkShouldRespond rt m st reply)
          \<and> (\<not> occursIn ''RESPOND'' reply \<and> (occursIn ''IGNORE'' reply \<or> occursIn ''STOP'' reply)
               \<longrightarrow> \<not> checkShouldRespond rt m st reply)
          \<and> (\<not> occursIn ''RESPOND'' reply \<and> \<not> occursIn ''IGNORE'' reply \<and> \<not> occursIn ''STOP'' reply
               \<longrightarrow> \<not> checkShouldRespond rt m st reply))
   \<and> (userId m \<noteq> agentId rt \<and> characterName rt = ''SarahBot''
        \<and> content_text m = ''hey SarahBot are you there'' \<and> st = MUTED
        \<longrightarrow> checkShouldRespond rt m st reply)"
proof -
  have mention: "includes_str (toLowerCase (content_text m)) (toLowerCase (characterName rt))
                   = mentionsName rt m"
    by (simp add: includes_str_iff mentionsName_def)
  have sarah: "includes_str (toLowerCase ''hey SarahBot are you there'') (toLowerCase ''SarahBot'')"
    by (simp add: toLowerCase_def toLowerChar_def)
  show ?thesis
    using sarah
    by (cases st) (auto simp: checkShouldRespond_def mention[symmetric] includes_str_occursIn[symmetric]
          simp del: includes_str.simps)
qed

text \<open>The muted room with a mention is answered even when the model would say
  \<open>IGNORE\<close>; the agent's own message is not answered even in a followed room.\<close>

theorem checkShouldRespond_order_witness:
  "(''user-1'' \<noteq> ''agent-1'' \<and> ''SarahBot'' = ''SarahBot''
     \<and> ''hey SarahBot are you there'' = ''hey SarahBot are you there'' \<and> MUTED = MUTED)
   \<and> checkShouldRespond
        \<lparr>agentId = ''agent-1'', characterName = ''SarahBot'', conversationLength = 32\<rparr>
        \<lparr>mem_id = ''m1'', userId = ''user-1'', roomId = ''room-1'',
         content_text = ''hey SarahBot are you there''\<rparr> MUTED ''IGNORE''
   \<and> \<not> checkShouldRespond
        \<lparr>agentId = ''agent-1'', characterName = ''SarahBot'', conversationLength = 32\<rparr>
        \<lparr>mem_id = ''m2'', userId = ''agent-1'', roomId = ''room-1'',
         content_text = ''hey SarahBot are you there''\<rparr> FOLLOWED ''RESPOND''"
  using checkShouldRespond_order
        [of "\<lparr>mem_id = ''m1'', userId = ''user-1'', roomId = ''room-1'',
              content_text = ''hey SarahBot are you there''\<rparr>"
            "\<lparr>agentId = ''agent-1'', characterName = ''SarahBot'', conversationLength = 32\<rparr>"
            MUTED "''IGNORE''"]
        checkShouldRespond_order
        [of "\<lparr>mem_id = ''m2'', userId = ''agent-1'', roomId = ''room-1'',
              content_text = ''hey SarahBot are you there''\<rparr>"
            "\<lparr>agentId = ''agent-1'', characterName = ''SarahBot'', conversationLength = 32\<rparr>"
            FOLLOWED "''RESPOND''"]
  by simp

subsection \<open>The reflection gate\<close>

lemma messagesSinceCheckpoint_spec:
  assumes "lastMessageId \<noteq> Some []"
  shows "messagesSinceCheckpoint lastMessageId messages = remainingAfterCheckpoint lastMessageId messages"
proof (cases lastMessageId)
  case None
  then show ?thesis by (simp add: messagesSinceCheckpoint_def remainingAfterCheckpoint_def)
next
  case (Some l)
  with assms have l: "l \<noteq> []" by simp
  show ?thesis
  proof (cases "findIndex (\<lambda>msg. mem_id msg = l) messages")
    case None
    then have "l \<notin> mem_id ` set messages" by (auto simp: findIndex_None_iff)
    with None Some l show ?thesis
      by (simp add: messagesSinceCheckpoint_def remainingAfterCheckpoint_def)
  next
    case (Some i)
    then have "l \<in> mem_id ` set messages" by (auto simp: findIndex_Some_iff)
    moreover have "drop (i + 1) messages = tl (dropWhile (\<lambda>m. mem_id m \<noteq> l) messages)"
      using findIndex_drop[OF Some] by simp
    ultimately show ?thesis using Some \<open>lastMessageId = Some l\<close> l
      by (simp add: messagesSinceCheckpoint_def remainingAfterCheckpoint_def)
  qed
qed

text \<open>
  Claim C8. \<open>validate\<close> is true exactly when the number of messages that remain after
  truncating everything at or before the checkpoint, in the order of the loaded list, is
  strictly greater than
  \<open>\<lceil>conversationLength / 4\<rceil>\<close>; when the two are equal it is false. The cached
  checkpoint is a message id, hence not the empty string.
\<close>

theorem validate_strictly_exceeds:
  assumes "lastMessageId \<noteq> Some []"
  shows "(validate rt lastMessageId messages \<longleftrightarrow>
            int (length (remainingAfterCheckpoint lastMessageId messages))
              > \<lceil>real_of_int (conversationLength rt) / 4\<rceil>)
         \<and> (int (length (remainingAfterCheckpoint lastMessageId messages))
              = \<lceil>real_of_int (conversationLength rt) / 4\<rceil>
            \<longrightarrow> \<not> validate rt lastMessageId messages)"
  using messagesSinceCheckpoint_spec[OF assms, of messages]
  by (simp add: validate_def reflectionInterval_ceiling)

text \<open>Window size 8 gives the interval 2; with the checkpoint at \<open>m10\<close> and two newer
  messages the gate stays closed.\<close>

theorem validate_strictly_exceeds_witness:
  "Some ''m10'' \<noteq> Some []
   \<and> \<not> validate \<lparr>agentId = ''agent-1'', characterName = ''SarahBot'', conversationLength = 8\<rparr>
         (Some ''m10'')
         [\<lparr>mem_id = ''m9'', userId = ''u'', roomId = ''r'', content_text = ''a''\<rparr>,
          \<lparr>mem_id = ''m10'', userId = ''u'', roomId = ''r'', content_text = ''b''\<rparr>,
          \<lparr>mem_id = ''m11'', userId = ''u'', roomId = ''r'', content_text = ''c''\<rparr>,
          \<lparr>mem_id = ''m12'', userId = ''u'', roomId = ''r'', content_text = ''d''\<rparr>]"
proof -
  have h: "Some ''m10'' \<noteq> Some []" by simp
  show ?thesis
    using h validate_strictly_exceeds[OF h,
      of "\<lparr>agentId = ''agent-1'', characterName = ''SarahBot'', conversationLength = 8\<rparr>"
         "[\<lparr>mem_id = ''m9'', userId = ''u'', roomId = ''r'', content_text = ''a''\<rparr>,
          \<lparr>mem_id = ''m10'', userId = ''u'', roomId = ''r'', content_text = ''b''\<rparr>,
          \<lparr>mem_id = ''m11'', userId = ''u'', roomId = ''r'', content_text = ''c''\<rparr>,
          \<lparr>mem_id = ''m12'', userId = ''u'', roomId = ''r'', content_text = ''d''\<rparr>]"]
    by (simp add: remainingAfterCheckpoint_def)
qed

subsection \<open>Entity resolution\<close>

lemma find_firstMatch:
  "List.find R xs = Some a \<longleftrightarrow> firstMatch R xs a"
  by (auto simp: find_Some_iff firstMatch_def)

lemma find_no_match: "List.find R xs = None \<longleftrightarrow> (\<forall>a\<in>set xs. \<not> R a)"
  by (auto simp: find_None_iff)

lemma find_SomeD: "List.find R xs = Some a \<Longrightarrow> a \<in> set xs \<and> R a"
  by (auto simp: find_Some_iff)

lemma rulePartialId_code: "includes_str (ent_id a) e = rulePartialId e a"
  by (simp add: rulePartialId_def includes_str_occursIn)

lemma ruleName_code:
  "list_ex (\<lambda>n. includes_str (toLowerCase n) (toLowerCase e)) (names a) = ruleName e a"
  by (simp add: ruleName_def includes_str_occursIn list_ex_iff)

lemma resolveEntity_unfold:
  "resolveEntity e es =
     (if isUuid e then Inr e
      else case List.find (ruleExactId e) es of
        Some a \<Rightarrow> Inr (ent_id a)
      | None \<Rightarrow>
     (case List.find (rulePartialId e) es of
        Some a \<Rightarrow> Inr (ent_id a)
      | None \<Rightarrow>
     (case List.find (ruleName e) es of
        Some a \<Rightarrow> Inr (ent_id a)
      | None \<Rightarrow> Inl (CouldNotResolve e))))"
proof -
  have 1: "(\<lambda>a. ent_id a = e) = ruleExactId e" by (auto simp: ruleExactId_def)
  have 2: "(\<lambda>a. includes_str (ent_id a) e) = rulePartialId e"
    by (auto simp: rulePartialId_code)
  have 3: "(\<lambda>a. list_ex (\<lambda>n. includes_str (toLowerCase n) (toLowerCase e)) (names a)) = ruleName e"
    by (auto simp: ruleName_code)
  show ?thesis unfolding resolveEntity_def 1 2 3 ..
qed

text \<open>
  Claim C9. \<open>resolveEntity\<close> applies four rules in order and the first match wins:
  (a) an identifier of the UUID shape is returned as it is, whatever the roster; (b) the
  first roster entity whose id equals the identifier; (c) the first roster entity whose
  id contains the identifier; (d) the first roster entity one of whose names contains
  the identifier, without regard to case. It fails exactly when no rule applies, and in
  the relationship loop a failure on either side skips that one relationship.
\<close>

theorem resolveEntity_rules:
  "(isUuid e \<longrightarrow> resolveEntity e es = Inr e)
   \<and> (\<not> isUuid e \<and> firstMatch (ruleExactId e) es a \<longrightarrow> resolveEntity e es = Inr (ent_id a))
   \<and> (\<not> isUuid e \<and> (\<forall>b\<in>set es. \<not> ruleExactId e b) \<and> firstMatch (rulePartialId e) es a
        \<longrightarrow> resolveEntity e es = Inr (ent_id a))
   \<and> (\<not> isUuid e \<and> (\<forall>b\<in>set es. \<not> ruleExactId e b) \<and> (\<forall>b\<in>set es. \<not> rulePartialId e b)
        \<and> firstMatch (ruleName e) es a
        \<longrightarrow> resolveEntity e es = Inr (ent_id a))
   \<and> ((\<exists>err. resolveEntity e es = Inl err) \<longleftrightarrow>
        \<not> isUuid e \<and> (\<forall>b\<in>set es. \<not> ruleExactId e b \<and> \<not> rulePartialId e b \<and> \<not> ruleName e b))
   \<and> ((\<exists>err. resolveEntity (sourceEntityId r) es = Inl err)
        \<or> (\<exists>err. resolveEntity (targetEntityId r) es = Inl err)
        \<longrightarrow> relationshipCalls es existing (r # rest) = relationshipCalls es existing rest)"
proof -
  have a: "isUuid e \<longrightarrow> resolveEntity e es = Inr e"
    by (simp add: resolveEntity_def)
  have b: "\<not> isUuid e \<and> firstMatch (ruleExactId e) es a \<longrightarrow> resolveEntity e es = Inr (ent_id a)"
    by (simp add: resolveEntity_unfold find_firstMatch[symmetric])
  have c: "\<not> isUuid e \<and> (\<forall>b\<in>set es. \<not> ruleExactId e b) \<and> firstMatch (rulePartialId e) es a
        \<longrightarrow> resolveEntity e es = Inr (ent_id a)"
    by (simp add: resolveEntity_unfold find_firstMatch[symmetric] find_no_match[symmetric])
  have d: "\<not> isUuid e \<and> (\<forall>b\<in>set es. \<not> ruleExactId e b) \<and> (\<forall>b\<in>set es. \<not> rulePartialId e b)
        \<and> firstMatch (ruleName e) es a
        \<longrightarrow> resolveEntity e es = Inr (ent_id a)"
    by (simp add: resolveEntity_unfold find_firstMatch[symmetric] find_no_match[symmetric])
  have f: "(\<exists>err. resolveEntity e es = Inl err) \<longleftrightarrow>
        \<not> isUuid e \<and> (\<forall>b\<in>set es. \<not> ruleExactId e b \<and> \<not> rulePartialId e b \<and> \<not> ruleName e b)"
    by (auto simp: resolveEntity_unfold find_no_match split: option.splits dest: find_SomeD)
  have g: "(\<exists>err. resolveEntity (sourceEntityId r) es = Inl err)
        \<or> (\<exists>err. resolveEntity (targetEntityId r) es = Inl err)
        \<longrightarrow> relationshipCalls es existing (r # rest) = relationshipCalls es existing rest"
    by (auto split: sum.splits)
  from a b c d f g show ?thesis by blast
qed

text \<open>A UUID resolves to itself against the empty roster; \<open>john\<close> is no id and no part
  of an id, and resolves through the name \<open>John\<close> of the second entity.\<close>

theorem resolveEntity_rules_witness:
  "(isUuid ''123e4567-e89b-12d3-a456-426614174000''
    \<and> resolveEntity ''123e4567-e89b-12d3-a456-426614174000'' []
        = Inr ''123e4567-e89b-12d3-a456-426614174000'')
   \<and> (\<not> isUuid ''john''
      \<and> firstMatch (ruleName ''john'')
           [\<lparr>ent_id = ''sarah-agent'', names = [''Sarah'']\<rparr>,
            \<lparr>ent_id = ''user-123'', names = [''John'', ''Johnny'']\<rparr>]
           \<lparr>ent_id = ''user-123'', names = [''John'', ''Johnny'']\<rparr>
      \<and> resolveEntity ''john''
           [\<lparr>ent_id = ''sarah-agent'', names = [''Sarah'']\<rparr>,
            \<lparr>ent_id = ''user-123'', names = [''John'', ''Johnny'']\<rparr>]
          = Inr ''user-123'')"
proof -
  let ?es = "[\<lparr>ent_id = ''sarah-agent'', names = [''Sarah'']\<rparr>,
              \<lparr>ent_id = ''user-123'', names = [''John'', ''Johnny'']\<rparr>]"
  let ?a = "\<lparr>ent_id = ''user-123'', names = [''John'', ''Johnny'']\<rparr>"
  have u: "isUuid ''123e4567-e89b-12d3-a456-426614174000''"
    by (simp add: isUuid_def isHexDigit_def)
  have n: "\<not> isUuid ''john''" by (simp add: isUuid_def)
  have b: "\<forall>b\<in>set ?es. \<not> ruleExactId ''john'' b" by (simp add: ruleExactId_def)
  have c: "\<forall>b\<in>set ?es. \<not> rulePartialId ''john'' b"
    by (simp add: rulePartialId_code[symmetric])
  have "List.find (ruleName ''john'') ?es = Some ?a"
    by (simp add: ruleName_code[symmetric] toLowerCase_def toLowerChar_def)
  then have d: "firstMatch (ruleName ''john'') ?es ?a" by (simp only: find_firstMatch)
  show ?thesis
    using u n b c d
      resolveEntity_rules[of "''123e4567-e89b-12d3-a456-426614174000''" "[]"]
      resolveEntity_rules[of "''john''" ?es ?a]
    by simp
qed

subsection \<open>Structured extraction\<close>

lemma lastIndexOf_None_iff: "lastIndexOf s c = None \<longleftrightarrow> c \<notin> set s"
  by (induction s) (auto split: option.splits)

lemma indexOf_first: "c \<notin> set pre \<Longrightarrow> indexOf (pre @ c # rest) c = Some (length pre)"
  by (induction pre) (auto simp: indexOf_def)

lemma lastIndexOf_last: "c \<notin> set post \<Longrightarrow> lastIndexOf (xs @ c # post) c = Some (length xs)"
proof (induction xs)
  case Nil
  then have "lastIndexOf post c = None" by (simp add: lastIndexOf_None_iff)
  then show ?case by simp
next
  case (Cons x xs)
  then show ?case by simp
qed

lemma indexOf_SomeD: "indexOf s c = Some f \<Longrightarrow> f < length s \<and> s ! f = c"
  by (simp add: indexOf_def findIndex_Some_iff)

lemma lastIndexOf_SomeD: "lastIndexOf s c = Some l \<Longrightarrow> l < length s \<and> s ! l = c"
  by (induction s arbitrary: l) (auto split: option.splits if_splits)

lemma hasBracketPair_open: "hasBracketPair output response \<Longrightarrow> openBracket output \<in> set response"
proof -
  assume "hasBracketPair output response"
  then obtain i j where "i < j" "j < length response" "response ! i = openBracket output"
    unfolding hasBracketPair_def by blast
  then have "i < length response" by simp
  then have "response ! i \<in> set response" by (rule nth_mem)
  with \<open>response ! i = _\<close> show ?thesis by simp
qed

lemma hasBracketPair_split:
  assumes "hasBracketPair output response"
  shows "\<exists>pre mid post.
           response = pre @ [openBracket output] @ mid @ [closeBracket output] @ post
           \<and> openBracket output \<notin> set pre \<and> closeBracket output \<notin> set post"
proof -
  from assms obtain i j where ij: "i < j" "j < length response"
    and oi: "response ! i = openBracket output" and cj: "response ! j = closeBracket output"
    unfolding hasBracketPair_def by blast
  have "openBracket output \<in> set response" using assms by (rule hasBracketPair_open)
  then obtain pre rest where r: "response = pre @ openBracket output # rest"
    and pre: "openBracket output \<notin> set pre"
    by (auto dest: split_list_first)
  have le: "length pre \<le> i"
  proof (rule ccontr)
    assume "\<not> length pre \<le> i"
    then have "i < length pre" by simp
    then have "response ! i \<in> set pre" by (simp add: r nth_append)
    with oi pre show False by simp
  qed
  have "response ! j = rest ! (j - length pre - 1)"
    using le ij(1) by (simp add: r nth_append nth_Cons')
  moreover have "j - length pre - 1 < length rest"
    using le ij by (simp add: r)
  ultimately have "closeBracket output \<in> set rest"
    using cj by (metis nth_mem)
  then obtain mid post where "rest = mid @ closeBracket output # post"
    and "closeBracket output \<notin> set post"
    by (auto dest: split_list_last)
  with r pre show ?thesis by auto
qed

lemma split_hasBracketPair:
  "hasBracketPair output (pre @ [openBracket output] @ mid @ [closeBracket output] @ post)"
proof -
  let ?r = "pre @ [openBracket output] @ mid @ [closeBracket output] @ post"
  have "length pre < length pre + 1 + length mid" by simp
  moreover have "length pre + 1 + length mid < length ?r" by simp
  moreover have "?r ! length pre = openBracket output" by simp
  moreover have "?r ! (length pre + 1 + length mid) = closeBracket output"
    by (simp add: nth_append)
  ultimately show ?thesis unfolding hasBracketPair_def by blast
qed

lemma jsonString_whole:
  assumes "\<not> hasBracketPair output response"
  shows "(case indexOf response (openBracket output) of
            None \<Rightarrow> response
          | Some f \<Rightarrow>
              (case lastIndexOf response (closeBracket output) of
                 None \<Rightarrow> response
               | Some l \<Rightarrow> if f < l then slice response f (l + 1) else response)) = response"
proof -
  have "\<not> f < l"
    if "indexOf response (openBracket output) = Some f"
      and "lastIndexOf response (closeBracket output) = Some l" for f l
  proof
    assume "f < l"
    moreover from that(1) have "response ! f = openBracket output"
      by (auto dest: indexOf_SomeD)
    moreover from that(2) have "l < length response" "response ! l = closeBracket output"
      by (auto dest: lastIndexOf_SomeD)
    ultimately have "hasBracketPair output response"
      unfolding hasBracketPair_def by blast
    with assms show False by simp
  qed
  then show ?thesis by (auto split: option.splits)
qed

lemma jsonString_slice:
  assumes "response = pre @ [openBracket output] @ mid @ [closeBracket output] @ post"
    and "openBracket output \<notin> set pre" and "closeBracket output \<notin> set post"
  shows "(case indexOf response (openBracket output) of
            None \<Rightarrow> response
          | Some f \<Rightarrow>
              (case lastIndexOf response (closeBracket output) of
                 None \<Rightarrow> response
               | Some l \<Rightarrow> if f < l then slice response f (l + 1) else response))
         = [openBracket output] @ mid @ [closeBracket output]"
proof -
  have f: "indexOf response (openBracket output) = Some (length pre)"
    unfolding assms(1) using indexOf_first[OF assms(2)] by simp
  have "lastIndexOf ((pre @ [openBracket output] @ mid) @ closeBracket output # post)
          (closeBracket output) = Some (length (pre @ [openBracket output] @ mid))"
    using assms(3) by (rule lastIndexOf_last)
  then have l: "lastIndexOf response (closeBracket output) = Some (length pre + 1 + length mid)"
    unfolding assms(1) by simp
  have "slice response (length pre) (length pre + 1 + length mid + 1)
          = [openBracket output] @ mid @ [closeBracket output]"
    unfolding assms(1) by (simp add: slice_def)
  with f l show ?thesis by simp
qed

lemma extractionResult_sum:
  "(if js = [] then Inr JNull
    else case P js of
      None \<Rightarrow> Inr JNull
    | Some json \<Rightarrow>
        (case schema of
           None \<Rightarrow> Inr json
         | Some parse \<Rightarrow> (case parse json of None \<Rightarrow> Inr JNull | Some v \<Rightarrow> Inr v)))
   = (Inr (extractionResult P schema js) :: fault + json)"
  by (simp add: extractionResult_def split: option.splits)

lemma generateObject_object_mode:
  assumes "prompt \<noteq> []" and "output \<noteq> Enum"
  shows "generateObject P prompt (Fulfilled response) output enumValues schema =
           Inr (extractionResult P schema
                  (case indexOf response (openBracket output) of
                     None \<Rightarrow> response
                   | Some f \<Rightarrow>
                       (case lastIndexOf response (closeBracket output) of
                          None \<Rightarrow> response
                        | Some l \<Rightarrow> if f < l then slice response f (l + 1) else response)))"
proof (cases "output = Array")
  case True
  then have b: "openBracket output = CHR ''[''" "closeBracket output = CHR '']''"
    by (simp_all add: openBracket_def closeBracket_def)
  show ?thesis
    unfolding b using assms True by (simp add: generateObject_def Let_def extractionResult_sum)
next
  case False
  then have b: "openBracket output = CHR ''{''" "closeBracket output = CHR ''}''"
    by (simp_all add: openBracket_def closeBracket_def)
  show ?thesis
    unfolding b using assms False by (simp add: generateObject_def Let_def extractionResult_sum)
qed

text \<open>
  Claim C10, as amended. In object and array mode the reply of the model is cut to the
  text from its first opening bracket to its last closing bracket of the requested shape
  when there is a matching pair, and is taken whole when there is none. That text gives
  the result: \<open>null\<close> when it is empty, when it does not parse, or when the supplied
  schema rejects the parsed value, and the parsed (validated) value otherwise. Every
  reply falls under one of the two cases, and whatever the reply, the call returns a
  value and raises nothing.
\<close>

theorem generateObject_extraction:
  assumes "prompt \<noteq> []" and "output \<noteq> Enum"
  shows "(\<not> hasBracketPair output response \<longrightarrow>
            generateObject P prompt (Fulfilled response) output enumValues schema
              = Inr (extractionResult P schema response))
         \<and> (\<forall>pre mid post.
               response = pre @ [openBracket output] @ mid @ [closeBracket output] @ post
               \<and> openBracket output \<notin> set pre \<and> closeBracket output \<notin> set post \<longrightarrow>
               generateObject P prompt (Fulfilled response) output enumValues schema
                 = Inr (extractionResult P schema
                          ([openBracket output] @ mid @ [closeBracket output])))
         \<and> (hasBracketPair output response \<longleftrightarrow>
              (\<exists>pre mid post.
                 response = pre @ [openBracket output] @ mid @ [closeBracket output] @ post
                 \<and> openBracket output \<notin> set pre \<and> closeBracket output \<notin> set post))
         \<and> (\<forall>reply. \<exists>v.
               generateObject P prompt (Fulfilled reply) output enumValues schema = Inr v)"
proof -
  note mode = generateObject_object_mode[OF assms]
  have whole: "\<not> hasBracketPair output response \<longrightarrow>
            generateObject P prompt (Fulfilled response) output enumValues schema
              = Inr (extractionResult P schema response)"
    using mode[of P response enumValues schema] jsonString_whole[of "output" response] by simp
  have sliced: "\<forall>pre mid post.
               response = pre @ [openBracket output] @ mid @ [closeBracket output] @ post
               \<and> openBracket output \<notin> set pre \<and> closeBracket output \<notin> set post \<longrightarrow>
               generateObject P prompt (Fulfilled response) output enumValues schema
                 = Inr (extractionResult P schema
                          ([openBracket output] @ mid @ [closeBracket output]))"
  proof (intro allI impI)
    fix pre mid post
    assume a: "response = pre @ [openBracket output] @ mid @ [closeBracket output] @ post
               \<and> openBracket output \<notin> set pre \<and> closeBracket output \<notin> set post"
    then have "(case indexOf response (openBracket output) of
            None \<Rightarrow> response
          | Some f \<Rightarrow>
              (case lastIndexOf response (closeBracket output) of
                 None \<Rightarrow> response
               | Some l \<Rightarrow> if f < l then slice response f (l + 1) else response))
         = [openBracket output] @ mid @ [closeBracket output]"
      using jsonString_slice[of response pre "output" mid post] by blast
    with mode[of P response enumValues schema]
    show "generateObject P prompt (Fulfilled response) output enumValues schema
                 = Inr (extractionResult P schema
                          ([openBracket output] @ mid @ [closeBracket output]))"
      by simp
  qed
  have cover: "hasBracketPair output response \<longleftrightarrow>
              (\<exists>pre mid post.
                 response = pre @ [openBracket output] @ mid @ [closeBracket output] @ post
                 \<and> openBracket output \<notin> set pre \<and> closeBracket output \<notin> set post)"
  proof
    assume "hasBracketPair output response"
    then show "\<exists>pre mid post.
                 response = pre @ [openBracket output] @ mid @ [closeBracket output] @ post
                 \<and> openBracket output \<notin> set pre \<and> closeBracket output \<notin> set post"
      by (rule hasBracketPair_split)
  next
    assume "\<exists>pre mid post.
                 response = pre @ [openBracket output] @ mid @ [closeBracket output] @ post
                 \<and> openBracket output \<notin> set pre \<and> closeBracket output \<notin> set post"
    then obtain pre mid post
      where "response = pre @ [openBracket output] @ mid @ [closeBracket output] @ post"
      by blast
    then show "hasBracketPair output response"
      by (simp only: split_hasBracketPair)
  qed
  have total: "\<forall>reply. \<exists>v.
               generateObject P prompt (Fulfilled reply) output enumValues schema = Inr v"
    using mode by simp
  from whole sliced cover total show ?thesis by (intro conjI)
qed

text \<open>
  Claim C10 as stated fails: the reply \<open>true\<close> holds no brace, no schema is supplied,
  and object mode returns the parsed value \<open>true\<close>, not \<open>null\<close>.
\<close>

theorem generateObject_returns_value_counterexample:
  "\<not> hasBracketPair Object ''true''
   \<and> generateObject JSON_parse_literal ''prompt'' (Fulfilled ''true'') Object [] None
       = Inr (JBool True)
   \<and> JBool True \<noteq> JNull"
proof -
  have "\<not> hasBracketPair Object ''true''"
    using hasBracketPair_open[of Object "''true''"] by (auto simp: openBracket_def)
  moreover have "generateObject JSON_parse_literal ''prompt'' (Fulfilled ''true'') Object [] None
       = Inr (JBool True)"
    by (simp add: generateObject_def indexOf_def JSON_parse_literal_def)
  ultimately show ?thesis by simp
qed

text \<open>A reply of plain prose without braces gives \<open>null\<close>; a reply with an empty
  object inside prose gives that object.\<close>

theorem generateObject_extraction_witness:
  "(''prompt'' \<noteq> [] \<and> Object \<noteq> Enum)
   \<and> (\<not> hasBracketPair Object ''no json here''
        \<and> generateObject JSON_parse_literal ''prompt'' (Fulfilled ''no json here'') Object [] None
            = Inr JNull)
   \<and> (''Sure: {} done'' = ''Sure: '' @ [CHR ''{''] @ [] @ [CHR ''}''] @ '' done''
        \<and> CHR ''{'' \<notin> set ''Sure: '' \<and> CHR ''}'' \<notin> set '' done''
        \<and> generateObject JSON_parse_literal ''prompt'' (Fulfilled ''Sure: {} done'') Object [] None
            = Inr (JObject []))"
proof -
  have p: "''prompt'' \<noteq> []" and o: "Object \<noteq> Enum" by simp_all
  have h: "\<not> hasBracketPair Object ''no json here''"
    using hasBracketPair_open[of Object "''no json here''"] by (auto simp: openBracket_def)
  have a: "generateObject JSON_parse_literal ''prompt'' (Fulfilled ''no json here'') Object [] None
            = Inr JNull"
    using h generateObject_extraction[OF p o, of "''no json here''" JSON_parse_literal "[]" None]
    by (simp add: extractionResult_def JSON_parse_literal_def)
  have b: "generateObject JSON_parse_literal ''prompt'' (Fulfilled ''Sure: {} done'') Object [] None
            = Inr (JObject [])"
    using generateObject_extraction[OF p o, of "''Sure: {} done''" JSON_parse_literal "[]" None,
            THEN conjunct2, THEN conjunct1, rule_format, of "''Sure: ''" "[]" "'' done''"]
    by (simp add: openBracket_def closeBracket_def extractionResult_def JSON_parse_literal_def)
  from h a b show ?thesis by simp
qed

subsection \<open>Numbers of the language\<close>


lemma pow2_nonneg_exp: "0 \<le> e \<Longrightarrow> pow2 e = 2 ^ nat e"
  by (simp add: pow2_def)





lemma jsPlus_one_stuck: "jsPlus (Finite (2 ^ 53)) (Finite 1) = Finite (2 ^ 53)"
  by code_simp

subsection \<open>Relationship merge\<close>






lemma pair_filter_miss:
  "(\<forall>x\<in>set store. \<not> R x) \<Longrightarrow> (\<forall>x\<in>set (filter Q store). \<not> R x)"
  by simp




text \<open>
  Claim C5 does not hold of the code. The loop looks each pair up in the list loaded
  before the loop, which the loop never refreshes: two extracted relationships for the
  same new pair in one pass are both created, and the store ends with two edges for the
  pair.
\<close>

theorem same_pass_duplicate_edges:
  "reflectionPass [] ''123e4567-e89b-12d3-a456-426614174000''
     [\<lparr>sourceEntityId = ''123e4567-e89b-12d3-a456-426614174000'',
       targetEntityId = ''123e4567-e89b-12d3-a456-426614174001'',
       tags = [''x''], metadata = None\<rparr>,
      \<lparr>sourceEntityId = ''123e4567-e89b-12d3-a456-426614174000'',
       targetEntityId = ''123e4567-e89b-12d3-a456-426614174001'',
       tags = [''y''], metadata = None\<rparr>] []
   = [\<lparr>sourceEntityId = ''123e4567-e89b-12d3-a456-426614174000'',
       targetEntityId = ''123e4567-e89b-12d3-a456-426614174001'',
       tags = [''x''], metadata = Some (Finite 1)\<rparr>,
      \<lparr>sourceEntityId = ''123e4567-e89b-12d3-a456-426614174000'',
       targetEntityId = ''123e4567-e89b-12d3-a456-426614174001'',
       tags = [''y''], metadata = Some (Finite 1)\<rparr>]"
  by (simp add: reflectionPass_def getRelationships_def resolveEntity_def isUuid_def isHexDigit_def)

subsection \<open>The message handler under interleaving\<close>

lemmas world_defs = setPc_def issue_def invoke_def cleanUpAndDispatch_def Let_def

lemma step_other:
  assumes "eventOf e \<noteq> h"
  shows "frames (step e w) h = frames w h \<and> callsOf h (step e w) = callsOf h w"
  using assms
  by (cases e) (auto simp: world_defs callsOf_def split: settled.splits option.splits)

lemma step_terminal_same:
  assumes "terminal (pc (frames w h))" and "eventOf e = h"
  shows "step e w = w"
  using assms by (cases e) (auto simp: terminal_def)

lemma step_terminal:
  assumes "terminal (pc (frames w h))"
  shows "frames (step e w) h = frames w h \<and> callsOf h (step e w) = callsOf h w"
proof (cases "eventOf e = h")
  case True
  with assms show ?thesis by (simp add: step_terminal_same)
next
  case False
  then show ?thesis by (rule step_other)
qed

lemma run_terminal:
  assumes "terminal (pc (frames w h))"
  shows "frames (run es w) h = frames w h \<and> callsOf h (run es w) = callsOf h w"
  using assms
proof (induction es arbitrary: w)
  case Nil
  then show ?case by simp
next
  case (Cons e es)
  from Cons.prems have s: "frames (step e w) h = frames w h" "callsOf h (step e w) = callsOf h w"
    using step_terminal by blast+
  with Cons.prems have "terminal (pc (frames (step e w) h))" by simp
  from Cons.IH[OF this] s show ?case by simp
qed

lemma evaluateCalls_callsOf: "evaluateCalls h w = filter (\<lambda>c. c = Evaluate h True \<or> c = Evaluate h False) (callsOf h w)"
  by (auto simp: evaluateCalls_def callsOf_def intro: filter_cong)

lemma step_other_eval:
  assumes "eventOf e \<noteq> h"
  shows "evaluateCalls h (step e w) = evaluateCalls h w"
  using step_other[OF assms] by (simp add: evaluateCalls_callsOf)

lemma evalInv_step_same:
  assumes "evalInv h w" and "eventOf e = h"
  shows "evalInv h (step e w)"
proof (cases e)
  case (Invoke h' agent room)
  with assms show ?thesis
    by (auto simp: evalInv_def world_defs evaluateCalls_def split: option.splits)
next
  case (Persisted h' r)
  with assms show ?thesis
    by (cases r) (auto simp: evalInv_def world_defs evaluateCalls_def)
next
  case (ShouldRespondSettled h' r)
  with assms show ?thesis
    by (cases r) (auto simp: evalInv_def world_defs evaluateCalls_def)
next
  case (StateComposed h' r)
  with assms show ?thesis
    by (cases r) (auto simp: evalInv_def world_defs evaluateCalls_def)
next
  case (ModelReplied h' r)
  with assms show ?thesis
    by (cases r) (auto simp: evalInv_def world_defs evaluateCalls_def)
next
  case (ActionsProcessed h' r)
  with assms show ?thesis
    by (cases r) (auto simp: evalInv_def world_defs evaluateCalls_def)
next
  case (Evaluated h' r)
  with assms show ?thesis
    by (cases r) (auto simp: evalInv_def world_defs evaluateCalls_def)
qed

lemma evalInv_step: "evalInv h w \<Longrightarrow> evalInv h (step e w)"
proof (cases "eventOf e = h")
  case True
  assume "evalInv h w"
  then show ?thesis using True by (rule evalInv_step_same)
next
  case False
  assume "evalInv h w"
  then show ?thesis
    using step_other[OF False, of w] step_other_eval[OF False, of w]
    by (simp add: evalInv_def)
qed

lemma evalInv_run: "evalInv h w \<Longrightarrow> evalInv h (run es w)"
  by (induction es arbitrary: w) (auto simp: evalInv_step)

lemma evalInv_world0: "evalInv h world0"
  by (simp add: evalInv_def world0_def evaluateCalls_def)

lemma persistInv_step_same:
  assumes "persistInv h w" and "eventOf e = h"
  shows "persistInv h (step e w)"
proof (cases e)
  case (Invoke h' agent room)
  with assms show ?thesis
    by (auto simp: persistInv_def world_defs callsOf_def split: option.splits)
next
  case (Persisted h' r)
  with assms show ?thesis
    by (cases r) (auto simp: persistInv_def world_defs callsOf_def)
next
  case (ShouldRespondSettled h' r)
  with assms show ?thesis
    by (cases r) (auto simp: persistInv_def world_defs callsOf_def)
next
  case (StateComposed h' r)
  with assms show ?thesis
    by (cases r) (auto simp: persistInv_def world_defs callsOf_def)
next
  case (ModelReplied h' r)
  with assms show ?thesis
    by (cases r) (auto simp: persistInv_def world_defs callsOf_def)
next
  case (ActionsProcessed h' r)
  with assms show ?thesis
    by (cases r) (auto simp: persistInv_def world_defs callsOf_def)
next
  case (Evaluated h' r)
  with assms show ?thesis
    by (cases r) (auto simp: persistInv_def world_defs callsOf_def)
qed

lemma persistInv_step: "persistInv h w \<Longrightarrow> persistInv h (step e w)"
proof (cases "eventOf e = h")
  case True
  assume "persistInv h w"
  then show ?thesis using True by (rule persistInv_step_same)
next
  case False
  assume "persistInv h w"
  then show ?thesis
    using step_other[OF False, of w] by (simp add: persistInv_def)
qed

lemma persistInv_run: "persistInv h w \<Longrightarrow> persistInv h (run es w)"
  by (induction es arbitrary: w) (auto simp: persistInv_step)

lemma persistInv_world0: "persistInv h world0"
  by (simp add: persistInv_def world0_def callsOf_def)

text \<open>
  Claim C2, as amended. In every schedule an invocation calls \<open>evaluate\<close> at most once.
  An invocation that has returned normally has called it exactly once, with its
  should-respond flag: the call is issued after the first \<open>composeState\<close> when the flag
  is false, and after \<open>processActions\<close> when a response was dispatched. An invocation
  that returned at the stale-token test has not called it and never will.
\<close>

theorem evaluate_once_on_completion:
  "(let w = run es world0; f = frames w h in
      length (evaluateCalls h w) \<le> 1
      \<and> (pc f = Done \<longrightarrow> evaluateCalls h w = [Evaluate h (shouldRespond f)])
      \<and> (pc f = Composing \<and> \<not> shouldRespond f \<longrightarrow>
            evaluateCalls h (step (StateComposed h (Fulfilled ())) w) = [Evaluate h False])
      \<and> (pc f = Dispatching \<longrightarrow>
            evaluateCalls h (step (ActionsProcessed h (Fulfilled ())) w) = [Evaluate h True])
      \<and> (pc f = Discarded \<longrightarrow> (\<forall>es'. evaluateCalls h (run es' w) = [])))"
proof -
  define w where "w = run es world0"
  define f where "f = frames w h"
  have inv: "evalInv h w"
    unfolding w_def using evalInv_world0 by (rule evalInv_run)
  have len: "length (evaluateCalls h w) \<le> 1"
    using inv unfolding evalInv_def Let_def f_def[symmetric]
    by (cases "pc f") auto
  have fin: "pc f = Done \<longrightarrow> evaluateCalls h w = [Evaluate h (shouldRespond f)]"
    using inv by (simp add: evalInv_def Let_def f_def)
  have quiet: "pc f = Composing \<and> \<not> shouldRespond f \<longrightarrow>
            evaluateCalls h (step (StateComposed h (Fulfilled ())) w) = [Evaluate h False]"
    using inv by (auto simp: evalInv_def Let_def f_def world_defs evaluateCalls_def)
  have sent: "pc f = Dispatching \<longrightarrow>
            evaluateCalls h (step (ActionsProcessed h (Fulfilled ())) w) = [Evaluate h True]"
    using inv by (auto simp: evalInv_def Let_def f_def world_defs evaluateCalls_def)
  have stale: "pc f = Discarded \<longrightarrow> (\<forall>es'. evaluateCalls h (run es' w) = [])"
  proof (intro impI allI)
    fix es'
    assume d: "pc f = Discarded"
    then have "terminal (pc (frames w h))" by (simp add: terminal_def f_def)
    then have "callsOf h (run es' w) = callsOf h w" using run_terminal by blast
    then have "evaluateCalls h (run es' w) = evaluateCalls h w"
      by (simp add: evaluateCalls_callsOf)
    with inv d show "evaluateCalls h (run es' w) = []"
      by (simp add: evalInv_def Let_def f_def)
  qed
  from len fin quiet sent stale show ?thesis
    unfolding Let_def w_def[symmetric] f_def[symmetric] by blast
qed

text \<open>An invocation whose should-respond flag is false calls \<open>evaluate\<close> with
  \<open>False\<close> once its state is composed.\<close>

theorem evaluate_once_on_completion_witness:
  "(let w = run [Invoke 0 ''agent'' ''room'', Persisted 0 (Fulfilled ()),
                 ShouldRespondSettled 0 (Fulfilled False)] world0
    in pc (frames w 0) = Composing \<and> \<not> shouldRespond (frames w 0)
       \<and> evaluateCalls 0 (step (StateComposed 0 (Fulfilled ())) w) = [Evaluate 0 False])"
  using evaluate_once_on_completion
    [of "[Invoke 0 ''agent'' ''room'', Persisted 0 (Fulfilled ()),
          ShouldRespondSettled 0 (Fulfilled False)]" 0]
  by (simp add: world0_def world_defs)

text \<open>
  Claim C2 as stated fails: a second message of the same room arrives while the first
  is being answered; the first invocation finds its token replaced and returns without
  having called \<open>evaluate\<close>.
\<close>

theorem stale_discard_skips_evaluate_counterexample:
  "(let w = run [Invoke 0 ''agent'' ''room'', Persisted 0 (Fulfilled ()),
                 ShouldRespondSettled 0 (Fulfilled True), StateComposed 0 (Fulfilled ()),
                 Invoke 1 ''agent'' ''room'', ModelReplied 0 (Fulfilled True)] world0
    in pc (frames w 0) = Discarded \<and> evaluateCalls 0 w = [])"
  by (simp add: world0_def world_defs evaluateCalls_def)

text \<open>
  Claim C6, as amended. When persisting the inbound message fails, the invocation
  rejects, which surfaces the failure to its caller, and it ends there: whatever happens
  afterwards, the only calls it ever issued are the two persistence calls, so the
  should-respond decision, the generation and \<open>evaluate\<close> do not run for that message.
\<close>

theorem persist_failure_aborts:
  assumes "pc (frames (run es world0) h) = Persisting"
  shows "(let w = run es' (step (Persisted h Rejected) (run es world0)) in
            pc (frames w h) = Failed
            \<and> callsOf h w = [AddEmbeddingToMemory h, CreateMemory h])"
proof -
  define w0 where "w0 = run es world0"
  define w1 where "w1 = step (Persisted h Rejected) w0"
  have inv: "persistInv h w0"
    unfolding w0_def using persistInv_world0 by (rule persistInv_run)
  from assms have p: "pc (frames w0 h) = Persisting" by (simp add: w0_def)
  with inv have c0: "callsOf h w0 = [AddEmbeddingToMemory h, CreateMemory h]"
    by (simp add: persistInv_def)
  from p have f1: "pc (frames w1 h) = Failed" and c1: "callsOf h w1 = callsOf h w0"
    by (simp_all add: w1_def world_defs callsOf_def)
  from f1 have "terminal (pc (frames w1 h))" by (simp add: terminal_def)
  then have "frames (run es' w1) h = frames w1 h \<and> callsOf h (run es' w1) = callsOf h w1"
    by (rule run_terminal)
  with f1 c1 c0 show ?thesis
    unfolding Let_def w1_def[symmetric] w0_def[symmetric] by simp
qed

text \<open>After a failed persistence, later settlements addressed to the invocation change
  nothing.\<close>

theorem persist_failure_aborts_witness:
  "pc (frames (run [Invoke 0 ''agent'' ''room''] world0) 0) = Persisting
   \<and> callsOf 0 (run [ShouldRespondSettled 0 (Fulfilled True), StateComposed 0 (Fulfilled ())]
                  (step (Persisted 0 Rejected) (run [Invoke 0 ''agent'' ''room''] world0)))
       = [AddEmbeddingToMemory 0, CreateMemory 0]"
proof -
  have h: "pc (frames (run [Invoke 0 ''agent'' ''room''] world0) 0) = Persisting"
    by (simp add: world0_def world_defs)
  show ?thesis
    using h persist_failure_aborts[OF h,
      of "[ShouldRespondSettled 0 (Fulfilled True), StateComposed 0 (Fulfilled ())]"]
    by (simp add: Let_def)
qed

text \<open>
  Claim C6 as stated fails: after the rejected persistence the invocation has failed,
  and neither \<open>checkShouldRespond\<close> nor the large model is ever called for it.
\<close>

theorem persist_failure_blocks_counterexample:
  "(let w = run [Invoke 0 ''agent'' ''room'', Persisted 0 Rejected,
                 ShouldRespondSettled 0 (Fulfilled True), StateComposed 0 (Fulfilled ()),
                 ModelReplied 0 (Fulfilled True)] world0
    in pc (frames w 0) = Failed
       \<and> CheckShouldRespond 0 \<notin> set (calls w) \<and> UseModelLarge 0 \<notin> set (calls w))"
  by (simp add: world0_def world_defs)

text \<open>
  Claim C3 does not hold of the code. Invocation 0 passes the token test and awaits the
  second \<open>composeState\<close>; meanwhile invocation 1 registers token 1 for the same agent
  and room. When invocation 0 resumes it deletes the entry of the room without looking at
  it, so the newer token is gone; invocation 0 dispatches, and invocation 1 later finds
  no entry and discards its response.
\<close>

theorem older_handler_clears_newer_token:
  "(let w = run [Invoke 0 ''agent'' ''room'', Persisted 0 (Fulfilled ()),
                 ShouldRespondSettled 0 (Fulfilled True), StateComposed 0 (Fulfilled ()),
                 ModelReplied 0 (Fulfilled True), Invoke 1 ''agent'' ''room''] world0;
        w' = step (StateComposed 0 (Fulfilled ())) w
    in responseId (frames w 0) = 0 \<and> responseId (frames w 1) = 1
       \<and> liveToken w ''agent'' ''room'' = Some 1
       \<and> liveToken w' ''agent'' ''room'' = None
       \<and> ProcessActions 0 \<in> set (calls w')
       \<and> pc (frames (run [Persisted 1 (Fulfilled ()), ShouldRespondSettled 1 (Fulfilled True),
                           StateComposed 1 (Fulfilled ()), ModelReplied 1 (Fulfilled True)] w') 1)
           = Discarded)"
  by code_simp

text \<open>
  Claim C1 does not hold of the code. Four messages of one room: invocation 0 passes its
  token test and awaits the second \<open>composeState\<close>; invocation 1 runs through its
  clean-up, which empties the shared map and removes the agent from
  \<open>latestResponseIds\<close>; invocation 2 starts and gets a fresh map; invocation 0 resumes,
  finds the map it holds empty and removes the agent once more, which detaches the fresh
  map of invocation 2. Invocation 3 then registers token 3 in yet another map. At the
  token test of invocation 2 the live token is 3, but the invocation reads the map it
  still holds, finds its own token 2, and goes on: the responses of invocations 2 and 3
  are both dispatched.
\<close>

theorem superseded_response_dispatched:
  "(let w = run [Invoke 0 ''agent'' ''room'', Persisted 0 (Fulfilled ()),
                 ShouldRespondSettled 0 (Fulfilled True), StateComposed 0 (Fulfilled ()),
                 ModelReplied 0 (Fulfilled True),
                 Invoke 1 ''agent'' ''room'', Persisted 1 (Fulfilled ()),
                 ShouldRespondSettled 1 (Fulfilled True), StateComposed 1 (Fulfilled ()),
                 ModelReplied 1 (Fulfilled True), StateComposed 1 (Fulfilled ()),
                 Invoke 2 ''agent'' ''room'', Persisted 2 (Fulfilled ()),
                 ShouldRespondSettled 2 (Fulfilled True), StateComposed 2 (Fulfilled ()),
                 StateComposed 0 (Fulfilled ()),
                 Invoke 3 ''agent'' ''room''] world0;
        w' = run [ModelReplied 2 (Fulfilled True), StateComposed 2 (Fulfilled ()),
                  Persisted 3 (Fulfilled ()), ShouldRespondSettled 3 (Fulfilled True),
                  StateComposed 3 (Fulfilled ()), ModelReplied 3 (Fulfilled True),
                  StateComposed 3 (Fulfilled ())] w
    in responseId (frames w 2) = 2 \<and> responseId (frames w 3) = 3
       \<and> pc (frames w 2) = Generating \<and> pc (frames w 3) = Persisting
       \<and> liveToken w ''agent'' ''room'' = Some 3
       \<and> pc (frames (step (ModelReplied 2 (Fulfilled True)) w) 2) = Recomposing
       \<and> filter (\<lambda>c. c = ProcessActions 2 \<or> c = ProcessActions 3) (calls w')
           = [ProcessActions 2, ProcessActions 3])"
  by code_simp

end
